theory Spec2Isabelle
  imports Complex_Main "HOL-Library.Char_ord" "HOL-Library.List_Lexorder" "HOL-Library.Multiset"
begin

section \<open>Sort keys\<close>

text \<open>
  A sort key of \<^verbatim>\<open>server.py\<close> is a Python value that is either a string (the date
  strategies and \<^verbatim>\<open>alphabetical\<close>) or an integer (\<^verbatim>\<open>priority\<close>, \<^verbatim>\<open>created\<close> and the
  fall-through \<^verbatim>\<open>0\<close>).  Strings compare lexicographically by character, integers by
  value.  Python raises \<^verbatim>\<open>TypeError\<close> when a string is compared with an integer; one
  strategy only ever yields keys of one kind (lemma \<open>sort_key_kind\<close> below), so that
  comparison never happens inside one bucket, and the order below puts every integer
  key before every string key only to be total.
\<close>

datatype sort_key = KInt int | KStr string

instantiation sort_key :: linorder
begin

fun less_eq_sort_key :: "sort_key \<Rightarrow> sort_key \<Rightarrow> bool" where
  "less_eq_sort_key (KInt a) (KInt b) = (a \<le> b)"
| "less_eq_sort_key (KStr a) (KStr b) = (a \<le> b)"
| "less_eq_sort_key (KInt a) (KStr b) = True"
| "less_eq_sort_key (KStr a) (KInt b) = False"

definition less_sort_key :: "sort_key \<Rightarrow> sort_key \<Rightarrow> bool" where
  "less_sort_key x y = (x \<le> y \<and> \<not> y \<le> x)"

instance
proof
  fix x y z :: sort_key
  show "(x < y) = (x \<le> y \<and> \<not> y \<le> x)"
    by (simp add: less_sort_key_def)
  show "x \<le> x"
    by (cases x) simp_all
  show "x \<le> y \<Longrightarrow> y \<le> z \<Longrightarrow> x \<le> z"
    by (cases x; cases y; cases z) auto
  show "x \<le> y \<Longrightarrow> y \<le> x \<Longrightarrow> x = y"
    by (cases x; cases y) auto
  show "x \<le> y \<or> y \<le> x"
    by (cases x; cases y) auto
qed

end

text \<open>
  The records the two extractors read.  A field that a Python \<^verbatim>\<open>dict\<close> may lack is an
  \<open>option\<close>: \<open>None\<close> stands for an absent key (or a stored \<^verbatim>\<open>None\<close>), which is what
  \<^verbatim>\<open>dict.get\<close> returns for it.  \<open>task\<close> is the shape of a record returned by the
  service, \<open>task_input\<close> the shape of an entry of the \<^verbatim>\<open>tasks\<close> argument of
  \<^verbatim>\<open>_batch_create_tasks_impl\<close> (its docstring lists the fields), and \<open>created_task\<close>
  what \<^verbatim>\<open>_create_task_impl\<close> returns through \<^verbatim>\<open>_format_task\<close>, which always fills in
  \<^verbatim>\<open>id\<close> and \<^verbatim>\<open>title\<close>.
\<close>

record task =
  task_id :: "int option"
  task_title :: "string option"
  task_start_date :: "string option"
  task_end_date :: "string option"
  task_due_date :: "string option"
  task_priority :: "int option"
  task_position :: "real option"

record created_task =
  created_id :: int
  created_title :: string

record task_input =
  title :: "string option"
  description :: "string option"
  start_date :: "string option"
  end_date :: "string option"
  due_date :: "string option"
  priority :: "int option"
  labels :: "string list option"
  bucket :: "string option"
  ref :: "string option"
  blocked_by :: "string list option"
  blocks :: "string list option"
  subtask_of :: "string option"

text \<open>Python's \<^verbatim>\<open>x or d\<close> for a string and for an integer: \<^verbatim>\<open>None\<close>, the empty string
  and \<^verbatim>\<open>0\<close> are falsy.\<close>

definition str_or :: "string option \<Rightarrow> string \<Rightarrow> string" where
  "str_or x d = (case x of None \<Rightarrow> d | Some s \<Rightarrow> if s = [] then d else s)"

definition int_or :: "int option \<Rightarrow> int \<Rightarrow> int" where
  "int_or x d = (case x of None \<Rightarrow> d | Some i \<Rightarrow> if i = 0 then d else i)"

text \<open>\<^verbatim>\<open>str.lower\<close> on the ASCII letters (characters are bytes here, so the case mapping of
  letters beyond ASCII is not modelled).\<close>

definition lower_char :: "char \<Rightarrow> char" where
  "lower_char c =
     (if CHR ''A'' \<le> c \<and> c \<le> CHR ''Z'' then char_of (of_char c + (32::nat)) else c)"

definition lower :: "string \<Rightarrow> string" where
  "lower s = map lower_char s"

definition sentinel_date :: string where
  "sentinel_date = ''9999-12-31''"

text \<open>\<^verbatim>\<open>_get_task_sort_key(task, strategy)\<close>.\<close>

definition get_task_sort_key :: "'a task_scheme \<Rightarrow> string \<Rightarrow> sort_key" where
  "get_task_sort_key t strategy =
     (if strategy = ''start_date'' then KStr (str_or (task_start_date t) sentinel_date)
      else if strategy = ''due_date'' then KStr (str_or (task_due_date t) sentinel_date)
      else if strategy = ''end_date'' then KStr (str_or (task_end_date t) sentinel_date)
      else if strategy = ''priority'' then KInt (- (int_or (task_priority t) 0))
      else if strategy = ''alphabetical'' then KStr (lower (str_or (task_title t) []))
      else if strategy = ''created'' then KInt (int_or (task_id t) 0)
      else KInt 0)"

text \<open>\<^verbatim>\<open>_get_input_sort_key(task_input, created_task, strategy)\<close>.  The title is read with
  \<^verbatim>\<open>task_input.get("title", "")\<close>: an absent title gives the empty string.\<close>

definition get_input_sort_key ::
  "'a task_input_scheme \<Rightarrow> 'b created_task_scheme \<Rightarrow> string \<Rightarrow> sort_key" where
  "get_input_sort_key ti created strategy =
     (if strategy = ''start_date'' then KStr (str_or (start_date ti) sentinel_date)
      else if strategy = ''due_date'' then KStr (str_or (due_date ti) sentinel_date)
      else if strategy = ''end_date'' then KStr (str_or (end_date ti) sentinel_date)
      else if strategy = ''priority'' then KInt (- (int_or (priority ti) 0))
      else if strategy = ''alphabetical''
        then KStr (lower (case title ti of None \<Rightarrow> [] | Some s \<Rightarrow> s))
      else if strategy = ''created'' then KInt (int_or (Some (created_id created)) 0)
      else KInt 0)"

section \<open>Position allocation\<close>

text \<open>
  \<^verbatim>\<open>bisect.bisect_left(a, x)\<close> of Python's standard library: the loop
  \<^verbatim>\<open>while lo < hi: mid = (lo + hi) // 2; if a[mid] < x: lo = mid + 1 else: hi = mid\<close>
  started at \<^verbatim>\<open>lo = 0, hi = len(a)\<close>.
\<close>

function bisect_loop :: "'k::linorder list \<Rightarrow> 'k \<Rightarrow> nat \<Rightarrow> nat \<Rightarrow> nat" where
  "bisect_loop a x lo hi =
     (if lo < hi
      then (let mid = (lo + hi) div 2
            in if a ! mid < x then bisect_loop a x (mid + 1) hi
               else bisect_loop a x lo mid)
      else lo)"
  by pat_completeness auto
termination
  by (relation "measure (\<lambda>(a, x, lo, hi). hi - lo)") auto

declare bisect_loop.simps [simp del]

definition bisect_left :: "'k::linorder list \<Rightarrow> 'k \<Rightarrow> nat" where
  "bisect_left a x = bisect_loop a x 0 (length a)"

text \<open>
  The position computed for a new key, as both \<^verbatim>\<open>_set_task_position_impl\<close> (lines
  506 to 520) and the auto-sort step of \<^verbatim>\<open>_batch_create_tasks_impl\<close> (lines 1357 to
  1375) write it, from \<^verbatim>\<open>existing_sorted\<close> and the index \<^verbatim>\<open>insert_idx\<close>.  Positions are
  Python floats; they are modelled by real numbers, so rounding and overflow of the
  floating-point operations are not part of the model.
\<close>

definition new_position :: "('k \<times> real) list \<Rightarrow> nat \<Rightarrow> real" where
  "new_position existing_sorted insert_idx =
     (if existing_sorted = [] then 1000
      else if insert_idx = 0
        then (let first_pos = snd (existing_sorted ! 0)
              in if first_pos > 0 then first_pos / 2 else - 1000)
      else if insert_idx \<ge> length existing_sorted
        then (let last_pos = snd (last existing_sorted) in last_pos + 1000)
      else (let prev_pos = snd (existing_sorted ! (insert_idx - 1));
                next_pos = snd (existing_sorted ! insert_idx)
            in (prev_pos + next_pos) / 2))"

text \<open>The allocator: \<^verbatim>\<open>existing_keys = [x[0] for x in existing_sorted]\<close>, then the binary
  search and the case distinction.\<close>

definition allocate :: "('k::linorder \<times> real) list \<Rightarrow> 'k \<Rightarrow> real" where
  "allocate existing_sorted new_key =
     new_position existing_sorted (bisect_left (map fst existing_sorted) new_key)"

text \<open>\<^verbatim>\<open>list.insert(i, x)\<close> for an index that is not negative: past the end it appends.\<close>

definition list_insert :: "'a list \<Rightarrow> nat \<Rightarrow> 'a \<Rightarrow> 'a list" where
  "list_insert xs i x = take i xs @ x # drop i xs"

section \<open>The batch orchestrator\<close>

text \<open>Decimal numerals, as an f-string prints an \<^verbatim>\<open>int\<close>.\<close>

function show_nat :: "nat \<Rightarrow> string" where
  "show_nat n =
     (if n < 10 then [char_of (48 + n)]
      else show_nat (n div 10) @ [char_of (48 + n mod 10)])"
  by pat_completeness auto
termination
  by (relation "measure id") auto

declare show_nat.simps [simp del]

definition show_int :: "int \<Rightarrow> string" where
  "show_int i = (if i < 0 then CHR ''-'' # show_nat (nat (- i)) else show_nat (nat i))"

text \<open>Python's truth value of an optional string and of an optional list.\<close>

definition truthy :: "'a list option \<Rightarrow> bool" where
  "truthy x = (case x of None \<Rightarrow> False | Some s \<Rightarrow> s \<noteq> [])"

text \<open>\<^verbatim>\<open>d.get(key, [])\<close> for a list-valued key.\<close>

definition get_list :: "'a list option \<Rightarrow> 'a list" where
  "get_list x = (case x of None \<Rightarrow> [] | Some l \<Rightarrow> l)"

text \<open>
  The remote service is outside the program.  Each call the orchestrator makes is a
  function of the arguments and of the state of the service, \<open>'s\<close>, and returns the
  outcome with the new state: \<open>Inr\<close> the response or \<open>Inl\<close> the text of the exception
  (for calls whose response is not used, \<open>None\<close> or \<open>Some\<close> the text).  The project and
  view identifiers are the same through one call and are left out.
\<close>

record 's service =
  create_task_impl :: "task_input \<Rightarrow> 's \<Rightarrow> (string + created_task) \<times> 's"
  create_task_relation_impl :: "int \<Rightarrow> string \<Rightarrow> int \<Rightarrow> 's \<Rightarrow> string option \<times> 's"
  set_view_position_impl :: "int \<Rightarrow> real \<Rightarrow> 's \<Rightarrow> string option \<times> 's"
  create_bucket_impl :: "string \<Rightarrow> nat \<Rightarrow> 's \<Rightarrow> (string + int) \<times> 's"

text \<open>
  The variables of \<^verbatim>\<open>_batch_create_tasks_impl\<close> that the steps below read and write:
  the five entries of \<^verbatim>\<open>result\<close>, \<^verbatim>\<open>ref_map\<close>, \<^verbatim>\<open>created_tasks\<close>, \<^verbatim>\<open>bucket_map\<close> and the
  state of the service.  The three logs are not variables of the source: they record,
  in call order, the relations the service accepted, the position calls and the
  bucket-creation calls that were issued, so that what a run did can be stated.
\<close>

record 's batch_state =
  created :: nat
  tasks :: "(string option \<times> int \<times> string) list"
  labels_created :: "string list"
  relations_created :: nat
  errors :: "string list"
  ref_map :: "string \<rightharpoonup> int"
  created_tasks :: "(task_input \<times> created_task) list"
  bucket_map :: "string \<rightharpoonup> int"
  remote :: 's
  relation_log :: "(int \<times> string \<times> int) list"
  position_log :: "(int \<times> real) list"
  bucket_log :: "(string \<times> nat) list"

subsection \<open>Defaults from the project configuration\<close>

record project_config =
  default_labels :: "string list option"
  default_bucket :: "string option"

text \<open>
  The body of the loop \<^verbatim>\<open>for task in tasks:\<close> at lines 1134 to 1140.  The dictionaries
  of the caller are updated in place; here the updated task is returned.
\<close>

definition apply_defaults ::
  "project_config \<Rightarrow> bool \<Rightarrow> 'a task_input_scheme \<Rightarrow> 'a task_input_scheme" where
  "apply_defaults cfg apply_default_labels t =
     (let dl = get_list (default_labels cfg);
          db = get_list (default_bucket cfg);
          t1 = (if apply_default_labels \<and> \<not> truthy (labels t) \<and> dl \<noteq> []
                then t\<lparr>labels := Some dl\<rparr> else t)
      in if \<not> truthy (bucket t1) \<and> db \<noteq> [] then t1\<lparr>bucket := Some db\<rparr> else t1)"

text \<open>
  Lines 1130 to 1140: \<open>None\<close> is a project without stored configuration (or a call with
  \<^verbatim>\<open>use_project_config\<close> off).  An empty stored dictionary is falsy in Python and skips
  the loop; its defaults are empty, so the loop would change nothing either.
\<close>

definition apply_config_defaults ::
  "project_config option \<Rightarrow> bool \<Rightarrow> 'a task_input_scheme list \<Rightarrow> 'a task_input_scheme list" where
  "apply_config_defaults project_cfg apply_default_labels ts =
     (case project_cfg of
        None \<Rightarrow> ts
      | Some cfg \<Rightarrow> map (apply_defaults cfg apply_default_labels) ts)"

subsection \<open>Missing buckets\<close>




subsection \<open>Creating the tasks\<close>



subsection \<open>Creating the relations\<close>











subsection \<open>Placing the new tasks of one bucket\<close>

text \<open>
  The body of the inner loop of step 9 (lines 1353 to 1384): the working sequence
  \<^verbatim>\<open>existing_sorted\<close> and its keys \<^verbatim>\<open>existing_keys\<close> are threaded with the state.
\<close>

definition place_task ::
  "'s service \<Rightarrow> string \<Rightarrow> task_input \<times> created_task
     \<Rightarrow> (sort_key \<times> real) list \<times> sort_key list \<times> 's batch_state
     \<Rightarrow> (sort_key \<times> real) list \<times> sort_key list \<times> 's batch_state" where
  "place_task svc strategy tc w =
     (case (tc, w) of ((task_in, ct), (existing_sorted, existing_keys, st)) \<Rightarrow>
        (let new_key = get_input_sort_key task_in ct strategy;
             insert_idx = bisect_left existing_keys new_key;
             new_pos = new_position existing_sorted insert_idx;
             st1 = st\<lparr>position_log := position_log st @ [(created_id ct, new_pos)]\<rparr>;
             st2 = (case set_view_position_impl svc (created_id ct) new_pos (remote st) of
                      (None, s') \<Rightarrow> st1\<lparr>remote := s'\<rparr>
                    | (Some msg, s') \<Rightarrow>
                        st1\<lparr>remote := s',
                            errors := errors st @ [''Failed to set position for task ''
                                        @ show_int (created_id ct) @ '': '' @ msg]\<rparr>)
         in (list_insert existing_sorted insert_idx (new_key, new_pos),
             list_insert existing_keys insert_idx new_key,
             st2)))"

fun place_tasks ::
  "'s service \<Rightarrow> string \<Rightarrow> (task_input \<times> created_task) list
     \<Rightarrow> (sort_key \<times> real) list \<times> sort_key list \<times> 's batch_state
     \<Rightarrow> (sort_key \<times> real) list \<times> sort_key list \<times> 's batch_state" where
  "place_tasks svc strategy [] w = w"
| "place_tasks svc strategy (tc # rest) w =
     place_tasks svc strategy rest (place_task svc strategy tc w)"

text \<open>The key of a new task of the bucket, as the loop computes it from the pair
  \<^verbatim>\<open>(task_input, created_task)\<close>.\<close>

definition input_key :: "string \<Rightarrow> task_input \<times> created_task \<Rightarrow> sort_key" where
  "input_key strategy tc = get_input_sort_key (fst tc) (snd tc) strategy"


section \<open>Notions of the specification\<close>

text \<open>
  The definitions of this section are not code of the program; they say in HOL what
  the specification's sentences talk about, and the theorems compare the program with
  them.
\<close>






text \<open>An input with a title and nothing else.\<close>

definition titled :: "string \<Rightarrow> task_input" where
  "titled ttl =
     \<lparr>title = Some ttl, description = None, start_date = None, end_date = None,
      due_date = None, priority = None, labels = None, bucket = None, ref = None,
      blocked_by = None, blocks = None, subtask_of = None\<rparr>"

text \<open>The working sequence once a task with key \<open>k\<close> is placed: the pair of the key and
  the allocated position, inserted at the index of the binary search, as the loop body
  of step 9 does with \<^verbatim>\<open>existing_sorted\<close>.\<close>

definition insert_allocated :: "('k::linorder \<times> real) list \<Rightarrow> 'k \<Rightarrow> ('k \<times> real) list" where
  "insert_allocated es k = list_insert es (bisect_left (map fst es) k) (k, allocate es k)"

section \<open>Templates\<close>

text \<open>
  A \<^verbatim>\<open>datetime\<close> of Python, without time zone and microseconds: the proleptic Gregorian
  ordinal of its date (1 is 0001-01-01, as \<^verbatim>\<open>date.toordinal\<close> counts) and the second
  within the day.  Adding \<^verbatim>\<open>timedelta(hours=h)\<close> carries into the days; the hours of a
  template are taken to be integers.
\<close>

record datetime =
  ordinal :: int
  second_of_day :: int

definition add_hours :: "datetime \<Rightarrow> int \<Rightarrow> datetime" where
  "add_hours dt h =
     (let total = second_of_day dt + 3600 * h
      in \<lparr>ordinal = ordinal dt + total div 86400, second_of_day = total mod 86400\<rparr>)"

text \<open>Year, month and day of an ordinal, by the algorithm of \<^verbatim>\<open>_ord2ymd\<close> in Python's
  \<^verbatim>\<open>datetime\<close> module.\<close>

definition days_before_month :: "int \<Rightarrow> int" where
  "days_before_month m = [0, 31, 59, 90, 120, 151, 181, 212, 243, 273, 304, 334] ! nat (m - 1)"

definition days_in_month :: "int \<Rightarrow> int" where
  "days_in_month m = [31, 28, 31, 30, 31, 30, 31, 31, 30, 31, 30, 31] ! nat (m - 1)"

definition ord2ymd :: "int \<Rightarrow> int \<times> int \<times> int" where
  "ord2ymd ord =
     (let n = ord - 1;
          n400 = n div 146097; r400 = n mod 146097;
          n100 = r400 div 36524; r100 = r400 mod 36524;
          n4 = r100 div 1461; r4 = r100 mod 1461;
          n1 = r4 div 365; r1 = r4 mod 365;
          year = n400 * 400 + 1 + n100 * 100 + n4 * 4 + n1
      in if n1 = 4 \<or> n100 = 4 then (year - 1, 12, 31)
         else (let leapyear = (n1 = 3 \<and> (n4 \<noteq> 24 \<or> n100 = 3));
                   month = (r1 + 50) div 32;
                   preceding = days_before_month month + (if month > 2 \<and> leapyear then 1 else 0)
               in if preceding > r1
                  then (let month' = month - 1;
                            preceding' = preceding
                              - (days_in_month month' + (if month' = 2 \<and> leapyear then 1 else 0))
                        in (year, month', r1 - preceding' + 1))
                  else (year, month, r1 - preceding + 1)))"

text \<open>\<^verbatim>\<open>strftime("%Y-%m-%d")\<close>: the fields in decimal, padded with zeros to four and to two
  digits (years from 1000 on).\<close>

definition zero_pad :: "nat \<Rightarrow> int \<Rightarrow> string" where
  "zero_pad w i = (let s = show_int i in replicate (w - length s) (CHR ''0'') @ s)"

definition strftime_date :: "datetime \<Rightarrow> string" where
  "strftime_date dt =
     (case ord2ymd (ordinal dt) of
        (y, m, d) \<Rightarrow> zero_pad 4 y @ ''-'' @ zero_pad 2 m @ ''-'' @ zero_pad 2 d)"

record task_def =
  def_title :: string
  offset_hours :: "int option"
  duration_hours :: "int option"
  def_ref :: "string option"
  def_blocked_by :: "string list option"

record template =
  template_default_labels :: "string list option"
  template_tasks :: "task_def list option"

text \<open>\<^verbatim>\<open>d.get(key, default)\<close> for an integer-valued key.\<close>

definition get_int :: "int option \<Rightarrow> int \<Rightarrow> int" where
  "get_int x d = (case x of None \<Rightarrow> d | Some i \<Rightarrow> i)"

text \<open>
  The body of the loop \<^verbatim>\<open>for task_def in tmpl.get("tasks", []):\<close> of
  \<^verbatim>\<open>_create_from_template_impl\<close> (lines 1923 to 1952).  \<open>end_dt\<close> is computed, as in the
  source, and both date strings are formatted from \<open>start_dt\<close>, as in the source.
\<close>

definition template_task ::
  "datetime \<Rightarrow> string list \<Rightarrow> string \<Rightarrow> string option \<Rightarrow> task_def \<Rightarrow> task_input" where
  "template_task anchor_dt all_labels title_suffix bkt td =
     (let offset = get_int (offset_hours td) 0;
          duration = get_int (duration_hours td) 1;
          start_dt = add_hours anchor_dt offset;
          end_dt = add_hours start_dt duration;
          start_str = strftime_date start_dt @ ''T00:00:00Z'';
          end_str = strftime_date start_dt @ ''T23:59:00Z'';
          ttl = (if title_suffix \<noteq> [] then def_title td @ '' '' @ title_suffix else def_title td);
          t0 = \<lparr>title = Some ttl, description = None, start_date = Some start_str,
                end_date = Some end_str, due_date = None, priority = None,
                labels = Some all_labels, bucket = None, ref = None, blocked_by = None,
                blocks = None, subtask_of = None\<rparr>;
          t1 = (if truthy (def_ref td) then t0\<lparr>ref := def_ref td\<rparr> else t0);
          t2 = (if truthy (def_blocked_by td) then t1\<lparr>blocked_by := def_blocked_by td\<rparr> else t1)
      in if truthy bkt then t2\<lparr>bucket := bkt\<rparr> else t2)"

text \<open>Lines 1919 to 1952: the task list built from a template.\<close>

definition template_task_list ::
  "template \<Rightarrow> datetime \<Rightarrow> string list option \<Rightarrow> string \<Rightarrow> string option \<Rightarrow> task_input list" where
  "template_task_list tmpl anchor_dt extra_labels title_suffix bkt =
     (let all_labels = get_list (template_default_labels tmpl) @ get_list extra_labels
      in map (template_task anchor_dt all_labels title_suffix bkt) (get_list (template_tasks tmpl)))"

section \<open>The configuration store: deep merge\<close>

text \<open>
  The values of a configuration document.  A Python \<^verbatim>\<open>dict\<close> keeps its keys in insertion
  order: it is a list of pairs with distinct keys.
\<close>

datatype jval =
  JNull | JBool bool | JInt int | JStr string | JList "jval list" | JDict "(string \<times> jval) list"

text \<open>\<^verbatim>\<open>d[key] = value\<close>: a key that is present keeps its place, a new key goes last.\<close>

fun dict_set :: "(string \<times> 'v) list \<Rightarrow> string \<Rightarrow> 'v \<Rightarrow> (string \<times> 'v) list" where
  "dict_set [] key v = [(key, v)]"
| "dict_set ((k, x) # d) key v = (if k = key then (k, v) # d else (k, x) # dict_set d key v)"

text \<open>
  \<^verbatim>\<open>_deep_merge(base, updates)\<close> on values.  The first argument is \<^verbatim>\<open>result\<close>, which starts
  as the copy of \<^verbatim>\<open>base\<close>; the second is what is left of \<^verbatim>\<open>updates.items()\<close>.
\<close>

fun deep_merge :: "(string \<times> jval) list \<Rightarrow> (string \<times> jval) list \<Rightarrow> (string \<times> jval) list" where
  "deep_merge result [] = result"
| "deep_merge result ((key, value) # rest) =
     deep_merge
       (dict_set result key
          (case map_of result key of
             Some (JDict b) \<Rightarrow> (case value of JDict u \<Rightarrow> JDict (deep_merge b u) | _ \<Rightarrow> value)
           | _ \<Rightarrow> value))
       rest"

text \<open>
  The same function on objects, to say what the merge does to the dictionaries it is
  given.  In Python a \<^verbatim>\<open>dict\<close> is an object and a variable or a slot of a dictionary
  holds a reference to it.  The heap is the list of the dictionary objects, an address
  is an index of it, and a new object goes to the end.  \<^verbatim>\<open>_deep_merge\<close> never looks
  into a list and never changes one, so a list is kept in its slot as a value.
\<close>

datatype pyval = PNull | PBool bool | PInt int | PStr string | PList "jval list" | PDict nat

type_synonym pyheap = "(string \<times> pyval) list list"

text \<open>The test \<^verbatim>\<open>key in result and isinstance(result[key], dict) and
  isinstance(value, dict)\<close>: the two dictionaries when it holds.\<close>

definition dict_pair :: "pyval option \<Rightarrow> pyval \<Rightarrow> (nat \<times> nat) option" where
  "dict_pair old new =
     (case old of
        Some (PDict x) \<Rightarrow> (case new of PDict y \<Rightarrow> Some (x, y) | _ \<Rightarrow> None)
      | _ \<Rightarrow> None)"

text \<open>
  \<^verbatim>\<open>_deep_merge(base, updates)\<close> on the heap: \<^verbatim>\<open>result = base.copy()\<close> allocates the
  shallow copy, \<open>merge_items\<close> is the loop over \<^verbatim>\<open>updates.items()\<close> with its
  assignments \<^verbatim>\<open>result[key] = ...\<close>, and the address of \<^verbatim>\<open>result\<close> is returned with the
  heap.  The first argument bounds the depth of the recursion, as the interpreter's
  recursion limit does: \<open>None\<close> is a run that exceeds it.
\<close>

fun deep_merge_heap :: "nat \<Rightarrow> pyheap \<Rightarrow> nat \<Rightarrow> nat \<Rightarrow> (pyheap \<times> nat) option"
and merge_items :: "nat \<Rightarrow> (string \<times> pyval) list \<Rightarrow> nat \<Rightarrow> pyheap \<Rightarrow> pyheap option" where
  "deep_merge_heap 0 h base updates = None"
| "deep_merge_heap (Suc depth) h base updates =
     (case merge_items depth (h ! updates) (length h) (h @ [h ! base]) of
        None \<Rightarrow> None
      | Some h' \<Rightarrow> Some (h', length h))"
| "merge_items depth [] result h = Some h"
| "merge_items depth ((key, value) # rest) result h =
     (case dict_pair (map_of (h ! result) key) value of
        Some (x, y) \<Rightarrow>
          (case deep_merge_heap depth h x y of
             None \<Rightarrow> None
           | Some (h', r) \<Rightarrow>
               merge_items depth rest result (h'[result := dict_set (h' ! result) key (PDict r)]))
      | None \<Rightarrow> merge_items depth rest result (h[result := dict_set (h ! result) key value]))"

text \<open>
  What a slot stands for: \<open>repr A h v t\<close> says that in the heap \<open>h\<close> the slot value \<open>v\<close>
  unfolds to the document value \<open>t\<close>, following references into the addresses \<open>A\<close>
  only.  This relation is not code of the program; it links the two models.
\<close>

inductive repr :: "nat set \<Rightarrow> pyheap \<Rightarrow> pyval \<Rightarrow> jval \<Rightarrow> bool" for A h where
  "repr A h PNull JNull"
| "repr A h (PBool b) (JBool b)"
| "repr A h (PInt i) (JInt i)"
| "repr A h (PStr s) (JStr s)"
| "repr A h (PList xs) (JList xs)"
| "a \<in> A \<Longrightarrow> a < length h \<Longrightarrow>
   list_all2 (\<lambda>kv kt. fst kv = fst kt \<and> repr A h (snd kv) (snd kt)) (h ! a) kts \<Longrightarrow>
   repr A h (PDict a) (JDict kts)"

definition entries_rel ::
  "nat set \<Rightarrow> pyheap \<Rightarrow> (string \<times> pyval) list \<Rightarrow> (string \<times> jval) list \<Rightarrow> bool" where
  "entries_rel A h d t = list_all2 (\<lambda>kv kt. fst kv = fst kt \<and> repr A h (snd kv) (snd kt)) d t"

section \<open>Properties of the binary search\<close>

lemma bisect_loop_bounds:
  "lo \<le> hi \<Longrightarrow> lo \<le> bisect_loop a x lo hi \<and> bisect_loop a x lo hi \<le> hi"
proof (induction a x lo hi rule: bisect_loop.induct)
  case (1 a x lo hi)
  show ?case
  proof (cases "lo < hi")
    case False
    then have "bisect_loop a x lo hi = lo" by (subst bisect_loop.simps) simp
    with "1.prems" show ?thesis by simp
  next
    case True
    define mid where "mid = (lo + hi) div 2"
    have mid: "lo \<le> mid" "mid < hi" using True by (simp_all add: mid_def)
    show ?thesis
    proof (cases "a ! mid < x")
      case lt: True
      have eq: "bisect_loop a x lo hi = bisect_loop a x (mid + 1) hi"
        using True lt by (subst bisect_loop.simps) (simp add: mid_def Let_def)
      show ?thesis using "1.IH"(1) [OF True mid_def lt] mid eq by simp
    next
      case ge: False
      have eq: "bisect_loop a x lo hi = bisect_loop a x lo mid"
        using True ge by (subst bisect_loop.simps) (simp add: mid_def Let_def)
      show ?thesis using "1.IH"(2) [OF True mid_def ge] mid eq by simp
    qed
  qed
qed

lemma bisect_left_le: "bisect_left a x \<le> length a"
  using bisect_loop_bounds [of 0 "length a" a x] by (simp add: bisect_left_def)

text \<open>The loop invariant: everything left of \<open>lo\<close> is below \<open>x\<close>, nothing from \<open>hi\<close> on is.\<close>

lemma bisect_loop_spec:
  "lo \<le> hi \<Longrightarrow> hi \<le> length a \<Longrightarrow> sorted a \<Longrightarrow>
   (\<forall>i<lo. a ! i < x) \<Longrightarrow> (\<forall>i. hi \<le> i \<and> i < length a \<longrightarrow> x \<le> a ! i) \<Longrightarrow>
   (\<forall>i<bisect_loop a x lo hi. a ! i < x) \<and>
   (\<forall>i. bisect_loop a x lo hi \<le> i \<and> i < length a \<longrightarrow> x \<le> a ! i)"
proof (induction a x lo hi rule: bisect_loop.induct)
  case (1 a x lo hi)
  show ?case
  proof (cases "lo < hi")
    case False
    then have "bisect_loop a x lo hi = lo" by (subst bisect_loop.simps) simp
    moreover from False "1.prems" have "lo = hi" by simp
    ultimately show ?thesis using "1.prems" by simp
  next
    case True
    define mid where "mid = (lo + hi) div 2"
    have mid: "lo \<le> mid" "mid < hi" using True by (simp_all add: mid_def)
    show ?thesis
    proof (cases "a ! mid < x")
      case lt: True
      have below: "\<forall>i<mid + 1. a ! i < x"
      proof (intro allI impI)
        fix i assume "i < mid + 1"
        then have "i \<le> mid" by simp
        with \<open>sorted a\<close> mid "1.prems"(2) have "a ! i \<le> a ! mid"
          by (auto intro!: sorted_nth_mono)
        with lt show "a ! i < x" by simp
      qed
      have eq: "bisect_loop a x lo hi = bisect_loop a x (mid + 1) hi"
        using True lt by (subst bisect_loop.simps) (simp add: mid_def Let_def)
      have "(\<forall>i<bisect_loop a x (mid + 1) hi. a ! i < x) \<and>
        (\<forall>i. bisect_loop a x (mid + 1) hi \<le> i \<and> i < length a \<longrightarrow> x \<le> a ! i)"
        using "1.IH"(1) [OF True mid_def lt _ "1.prems"(2,3) below "1.prems"(5)] mid by simp
      with eq show ?thesis by simp
    next
      case ge: False
      have above: "\<forall>i. mid \<le> i \<and> i < length a \<longrightarrow> x \<le> a ! i"
      proof (intro allI impI)
        fix i assume "mid \<le> i \<and> i < length a"
        with \<open>sorted a\<close> have "a ! mid \<le> a ! i"
          by (auto intro!: sorted_nth_mono)
        with ge show "x \<le> a ! i" by simp
      qed
      have eq: "bisect_loop a x lo hi = bisect_loop a x lo mid"
        using True ge by (subst bisect_loop.simps) (simp add: mid_def Let_def)
      have "(\<forall>i<bisect_loop a x lo mid. a ! i < x) \<and>
        (\<forall>i. bisect_loop a x lo mid \<le> i \<and> i < length a \<longrightarrow> x \<le> a ! i)"
        using "1.IH"(2) [OF True mid_def ge mid(1) _ "1.prems"(3,4) above] mid "1.prems"(2) by simp
      with eq show ?thesis by simp
    qed
  qed
qed

lemma bisect_left_spec:
  assumes "sorted a"
  shows "(\<forall>i<bisect_left a x. a ! i < x) \<and>
         (\<forall>i. bisect_left a x \<le> i \<and> i < length a \<longrightarrow> x \<le> a ! i)"
proof -
  have "\<forall>i<0::nat. a ! i < x" by simp
  moreover have "\<forall>i. length a \<le> i \<and> i < length a \<longrightarrow> x \<le> a ! i" by auto
  ultimately show ?thesis
    using bisect_loop_spec [of 0 "length a" a x] assms unfolding bisect_left_def by blast
qed

section \<open>The position allocator\<close>

text \<open>
  Claim C1.  On a sequence sorted by key, the index \<open>i\<close> that the binary search returns
  is the leftmost insertion index of the new key: every key before it is smaller, no
  key from it on is (so a tie goes left of its equals).  The position is 1000 on the
  empty sequence; for \<open>i = 0\<close> half the first position when that is positive and -1000
  otherwise; for \<open>i\<close> the length, the last position plus 1000; and otherwise the mean
  of the positions at \<open>i - 1\<close> and \<open>i\<close>.
\<close>

theorem allocate_cases:
  fixes es :: "('k::linorder \<times> real) list"
  assumes "sorted (map fst es)"
  shows "(let i = bisect_left (map fst es) k
          in i \<le> length es \<and>
             (\<forall>j<i. fst (es ! j) < k) \<and>
             (\<forall>j. i \<le> j \<and> j < length es \<longrightarrow> k \<le> fst (es ! j)) \<and>
             allocate es k =
               (if es = [] then 1000
                else if i = 0 then (if snd (hd es) > 0 then snd (hd es) / 2 else - 1000)
                else if i = length es then snd (last es) + 1000
                else (snd (es ! (i - 1)) + snd (es ! i)) / 2))"
proof -
  define i where "i = bisect_left (map fst es) k"
  have le: "i \<le> length es"
    using bisect_left_le [of "map fst es" k] by (simp add: i_def)
  have "(\<forall>j<i. map fst es ! j < k) \<and>
        (\<forall>j. i \<le> j \<and> j < length (map fst es) \<longrightarrow> k \<le> map fst es ! j)"
    using bisect_left_spec [OF assms, of k] by (simp add: i_def)
  with le have left: "(\<forall>j<i. fst (es ! j) < k) \<and>
        (\<forall>j. i \<le> j \<and> j < length es \<longrightarrow> k \<le> fst (es ! j))"
    by auto
  have "allocate es k =
          (if es = [] then 1000
           else if i = 0 then (if snd (hd es) > 0 then snd (hd es) / 2 else - 1000)
           else if i = length es then snd (last es) + 1000
           else (snd (es ! (i - 1)) + snd (es ! i)) / 2)"
    using le by (auto simp: allocate_def new_position_def Let_def hd_conv_nth i_def)
  with le left show ?thesis
    unfolding Let_def i_def by blast
qed

theorem allocate_cases_witness:
  "sorted (map fst [(KInt 1, 500), (KInt 5, 1500 :: real)]) \<and>
   bisect_left (map fst [(KInt 1, 500), (KInt 5, 1500 :: real)]) (KInt 0) = 0 \<and>
   allocate [(KInt 1, 500), (KInt 5, 1500)] (KInt 0) = 250"
proof -
  have s: "sorted (map fst [(KInt 1, 500), (KInt 5, 1500 :: real)])"
    by (simp add: less_sort_key_def)
  have b: "bisect_left (map fst [(KInt 1, 500), (KInt 5, 1500 :: real)]) (KInt 0) = 0"
    by code_simp
  show ?thesis
    using s b allocate_cases [OF s, of "KInt 0"] by (simp add: Let_def)
qed

section \<open>Placing several tasks in one bucket\<close>

lemma place_tasks_append:
  "place_tasks svc strategy (xs @ ys) w = place_tasks svc strategy ys (place_tasks svc strategy xs w)"
  by (induction xs arbitrary: w) simp_all

lemma place_task_fst:
  "place_task svc strategy (t, c) (es, map fst es, st) = (es', ks', st') \<Longrightarrow>
   es' = list_insert es (bisect_left (map fst es) (get_input_sort_key t c strategy))
           (get_input_sort_key t c strategy, allocate es (get_input_sort_key t c strategy))
   \<and> ks' = map fst es'
   \<and> position_log st' = position_log st @ [(created_id c, allocate es (get_input_sort_key t c strategy))]"
  by (auto simp: place_task_def Let_def allocate_def list_insert_def take_map drop_map split: prod.splits option.splits)

lemma mset_list_insert: "mset (list_insert xs i x) = add_mset x (mset xs)"
proof -
  have "mset (take i xs) + mset (drop i xs) = mset xs"
    using mset_append [of "take i xs" "drop i xs"] by simp
  then show ?thesis by (simp add: list_insert_def)
qed

lemma place_tasks_inv:
  "place_tasks svc strategy pre (es, map fst es, st) = (es1, ks1, st1) \<Longrightarrow>
   ks1 = map fst es1 \<and>
   (\<exists>ps. position_log st1 = position_log st @ ps \<and> length ps = length pre \<and>
      mset es1 = mset es + mset (zip (map (input_key strategy) pre) (map snd ps)))"
proof (induction pre arbitrary: es st)
  case Nil
  then show ?case by auto
next
  case (Cons tc rest)
  obtain t c where tc: "tc = (t, c)" by (cases tc)
  obtain es' ks' st' where step: "place_task svc strategy (t, c) (es, map fst es, st) = (es', ks', st')"
    by (cases "place_task svc strategy (t, c) (es, map fst es, st)")
  note f = place_task_fst [OF step]
  from Cons.prems tc step f have "place_tasks svc strategy rest (es', map fst es', st') = (es1, ks1, st1)"
    by simp
  from Cons.IH [OF this] obtain ps where ps: "ks1 = map fst es1"
    "position_log st1 = position_log st' @ ps" "length ps = length rest"
    "mset es1 = mset es' + mset (zip (map (input_key strategy) rest) (map snd ps))"
    by blast
  let ?k = "get_input_sort_key t c strategy"
  have "position_log st1 = position_log st @ ((created_id c, allocate es ?k) # ps)"
    using ps f by simp
  moreover have "mset es1 = mset es
      + mset (zip (map (input_key strategy) (tc # rest)) (map snd ((created_id c, allocate es ?k) # ps)))"
    using ps f by (simp add: mset_list_insert tc input_key_def)
  ultimately show ?case using ps by (intro conjI exI [of _ "(created_id c, allocate es ?k) # ps"]) simp_all
qed

text \<open>
  Claim C3.  Let the new tasks of one bucket be \<open>pre\<close>, then \<open>(t, c)\<close>, then \<open>post\<close>.  When
  \<open>(t, c)\<close> is reached, the working sequence \<open>es1\<close> holds the existing entries and the
  (key, position) pair of every task of \<open>pre\<close>, with the positions that were sent to
  the service for them; its keys are the list the binary search reads.  The position of
  \<open>(t, c)\<close> is the allocator's on that sequence, its pair is inserted at its insertion
  index, and \<open>post\<close> goes on from the sequence so extended.
\<close>

theorem sequential_placement:
  "(case place_tasks svc strategy pre (es, map fst es, st) of (es1, ks1, st1) \<Rightarrow>
      ks1 = map fst es1 \<and>
      length es1 = length es + length pre \<and>
      mset es1 = mset es + mset (zip (map (input_key strategy) pre)
                                     (map snd (drop (length (position_log st)) (position_log st1)))) \<and>
      (case place_task svc strategy (t, c) (es1, ks1, st1) of (es2, ks2, st2) \<Rightarrow>
         es2 = list_insert es1 (bisect_left (map fst es1) (input_key strategy (t, c)))
                 (input_key strategy (t, c), allocate es1 (input_key strategy (t, c))) \<and>
         position_log st2 = position_log st1 @ [(created_id c, allocate es1 (input_key strategy (t, c)))] \<and>
         place_tasks svc strategy (pre @ (t, c) # post) (es, map fst es, st) =
           place_tasks svc strategy post (es2, ks2, st2)))"
proof -
  obtain es1 ks1 st1 where w: "place_tasks svc strategy pre (es, map fst es, st) = (es1, ks1, st1)"
    by (cases "place_tasks svc strategy pre (es, map fst es, st)")
  from place_tasks_inv [OF w] obtain ps where ps: "ks1 = map fst es1"
    "position_log st1 = position_log st @ ps" "length ps = length pre"
    "mset es1 = mset es + mset (zip (map (input_key strategy) pre) (map snd ps))"
    by blast
  have w': "place_tasks svc strategy pre (es, map fst es, st) = (es1, map fst es1, st1)"
    using w ps(1) by simp
  obtain es2 ks2 st2 where step: "place_task svc strategy (t, c) (es1, map fst es1, st1) = (es2, ks2, st2)"
    by (cases "place_task svc strategy (t, c) (es1, map fst es1, st1)")
  note f = place_task_fst [OF step]
  have len: "length es1 = length es + length pre"
  proof -
    have "size (mset es1) = size (mset es) + size (mset (zip (map (input_key strategy) pre) (map snd ps)))"
      using ps(4) by simp
    then show ?thesis using ps(3) by simp
  qed
  have "place_tasks svc strategy (pre @ (t, c) # post) (es, map fst es, st) =
          place_tasks svc strategy post (es2, ks2, st2)"
    by (simp add: place_tasks_append w' step)
  with ps f len show ?thesis
    by (simp add: w' step input_key_def)
qed

section \<open>The sort-key extractors\<close>

text \<open>Whether a key is a string or an integer depends on the strategy alone.\<close>

lemma sort_key_kind:
  "(\<exists>s. get_task_sort_key t strategy = KStr s)
     \<longleftrightarrow> strategy \<in> {''start_date'', ''due_date'', ''end_date'', ''alphabetical''}"
  "(\<exists>s. get_input_sort_key task_in c strategy = KStr s)
     \<longleftrightarrow> strategy \<in> {''start_date'', ''due_date'', ''end_date'', ''alphabetical''}"
  by (auto simp: get_task_sort_key_def get_input_sort_key_def)




section \<open>Defaults from the project configuration\<close>

text \<open>
  Claim C10.  Without a stored configuration the inputs are left as they are.  With
  one, every input keeps its place in the list; an input without bucket gets the
  configured default bucket, an input without labels gets the configured default labels
  when \<open>apply_default_labels\<close> is set, an input that has a bucket or labels keeps them,
  and no other field of an input changes.
\<close>

theorem defaults_in_place:
  "apply_config_defaults None flag ts = ts \<and>
   length (apply_config_defaults (Some cfg) flag ts) = length ts \<and>
   (\<forall>i<length ts.
      let t = ts ! i; t' = apply_config_defaults (Some cfg) flag ts ! i
      in bucket t' = (if \<not> truthy (bucket t) \<and> truthy (default_bucket cfg)
                      then default_bucket cfg else bucket t) \<and>
         labels t' = (if flag \<and> \<not> truthy (labels t) \<and> truthy (default_labels cfg)
                      then default_labels cfg else labels t) \<and>
         t'\<lparr>labels := labels t, bucket := bucket t\<rparr> = t)"
  by (auto simp: apply_config_defaults_def apply_defaults_def Let_def truthy_def get_list_def
      split: option.splits)


theorem defaults_in_place_witness:
  "(0::nat) < length [titled ''A'', (titled ''B'')\<lparr>labels := Some [''x''], bucket := Some ''Done''\<rparr>] \<and>
   (1::nat) < length [titled ''A'', (titled ''B'')\<lparr>labels := Some [''x''], bucket := Some ''Done''\<rparr>] \<and>
   apply_config_defaults (Some \<lparr>default_labels = Some [''ops''], default_bucket = Some ''Todo''\<rparr>) True
     [titled ''A'', (titled ''B'')\<lparr>labels := Some [''x''], bucket := Some ''Done''\<rparr>] ! 0
     = (titled ''A'')\<lparr>labels := Some [''ops''], bucket := Some ''Todo''\<rparr> \<and>
   apply_config_defaults (Some \<lparr>default_labels = Some [''ops''], default_bucket = Some ''Todo''\<rparr>) True
     [titled ''A'', (titled ''B'')\<lparr>labels := Some [''x''], bucket := Some ''Done''\<rparr>] ! 1
     = (titled ''B'')\<lparr>labels := Some [''x''], bucket := Some ''Done''\<rparr>"
  using defaults_in_place [of True
      "[titled ''A'', (titled ''B'')\<lparr>labels := Some [''x''], bucket := Some ''Done''\<rparr>]"
      "\<lparr>default_labels = Some [''ops''], default_bucket = Some ''Todo''\<rparr>"]
  by (simp add: apply_config_defaults_def apply_defaults_def truthy_def get_list_def titled_def)

section \<open>Creating the missing buckets\<close>







section \<open>Creating tasks and relations\<close>

subsection \<open>What the two steps leave alone\<close>






subsection \<open>The ref map\<close>





subsection \<open>The relations created\<close>







subsection \<open>Refs that do not resolve\<close>








section \<open>Order of the working sequence\<close>

text \<open>
  Claim C2 at a bucket whose only task has position -5000.  The sequence is ascending
  by key and by position; a new key below the first goes to index 0 and is given the
  position -1000, which is above -5000: after the insertion the positions are no
  longer ascending.
\<close>

theorem head_insertion_breaks_position_order:
  "sorted (map fst [(KInt 5, - 5000 :: real)]) \<and>
   sorted (map snd [(KInt 5, - 5000 :: real)]) \<and>
   bisect_left (map fst [(KInt 5, - 5000 :: real)]) (KInt 1) = 0 \<and>
   allocate [(KInt 5, - 5000)] (KInt 1) = - 1000 \<and>
   insert_allocated [(KInt 5, - 5000)] (KInt 1) = [(KInt 1, - 1000), (KInt 5, - 5000)] \<and>
   \<not> sorted (map snd (insert_allocated [(KInt 5, - 5000)] (KInt 1)))"
proof -
  have b: "bisect_left (map fst [(KInt 5, - 5000 :: real)]) (KInt 1) = 0"
    by code_simp
  then have a: "allocate [(KInt 5, - 5000)] (KInt 1) = - 1000"
    by (simp add: allocate_def new_position_def)
  from a b have i: "insert_allocated [(KInt 5, - 5000)] (KInt 1) = [(KInt 1, - 1000), (KInt 5, - 5000)]"
    by (simp add: insert_allocated_def list_insert_def)
  from a b i show ?thesis by simp
qed

lemma sorted_list_insert:
  fixes xs :: "'a::linorder list"
  assumes "sorted xs" and "\<forall>j<i. j < length xs \<longrightarrow> xs ! j \<le> x"
      and "\<forall>j. i \<le> j \<and> j < length xs \<longrightarrow> x \<le> xs ! j"
  shows "sorted (list_insert xs i x)"
proof -
  have lo: "\<forall>a\<in>set (take i xs). a \<le> x"
  proof
    fix a assume "a \<in> set (take i xs)"
    then obtain j where "j < length (take i xs)" "a = take i xs ! j"
      by (auto simp: in_set_conv_nth)
    with assms(2) show "a \<le> x" by simp
  qed
  have hi: "\<forall>b\<in>set (drop i xs). x \<le> b"
  proof
    fix b assume "b \<in> set (drop i xs)"
    then obtain j where j: "j < length (drop i xs)" "b = drop i xs ! j"
      by (auto simp: in_set_conv_nth)
    then have "b = xs ! (i + j)" "i + j < length xs" by simp_all
    with assms(3) show "x \<le> b" by simp
  qed
  have "\<forall>a\<in>set (take i xs). \<forall>b\<in>set (drop i xs). a \<le> b"
    using lo hi by (meson order_trans)
  with lo hi assms(1) show ?thesis
    by (simp add: list_insert_def sorted_append sorted_wrt_take sorted_wrt_drop)
qed

lemma map_list_insert: "map f (list_insert xs i x) = list_insert (map f xs) i (f x)"
  by (simp add: list_insert_def take_map drop_map)

text \<open>
  Where the order is kept.  On a sequence ascending by key and by position, the
  insertion of the new key with its allocated position gives a sequence ascending by
  key and by position again, provided that an insertion at the head meets a first
  position of -1000 or more.
\<close>

theorem insertion_keeps_order:
  fixes es :: "('k::linorder \<times> real) list"
  assumes keys: "sorted (map fst es)" and poss: "sorted (map snd es)"
      and head: "es \<noteq> [] \<and> bisect_left (map fst es) k = 0 \<longrightarrow> - 1000 \<le> snd (hd es)"
  shows "sorted (map fst (insert_allocated es k)) \<and> sorted (map snd (insert_allocated es k))"
proof -
  define i where "i = bisect_left (map fst es) k"
  define p where "p = allocate es k"
  let ?ps = "map snd es"
  have le: "i \<le> length es"
    using bisect_left_le [of "map fst es" k] by (simp add: i_def)
  have spec: "(\<forall>j<i. map fst es ! j < k) \<and> (\<forall>j. i \<le> j \<and> j < length (map fst es) \<longrightarrow> k \<le> map fst es ! j)"
    using bisect_left_spec [OF keys, of k] by (simp add: i_def)
  have "sorted (list_insert (map fst es) i k)"
  proof (rule sorted_list_insert [OF keys])
    show "\<forall>j<i. j < length (map fst es) \<longrightarrow> map fst es ! j \<le> k"
      using spec by (auto intro: less_imp_le)
    show "\<forall>j. i \<le> j \<and> j < length (map fst es) \<longrightarrow> k \<le> map fst es ! j"
      using spec by blast
  qed
  then have k_sorted: "sorted (map fst (insert_allocated es k))"
    by (simp add: insert_allocated_def map_list_insert i_def)
  have mono: "?ps ! a \<le> ?ps ! b" if "a \<le> b" "b < length es" for a b
    using sorted_nth_mono [OF poss, of a b] that by simp
  have p_eq: "p = new_position es i"
    by (simp add: p_def allocate_def i_def)
  have below: "\<forall>j<i. j < length ?ps \<longrightarrow> ?ps ! j \<le> p"
  proof (intro allI impI)
    fix j assume j: "j < i" "j < length ?ps"
    then have ne: "es \<noteq> []" "i \<noteq> 0" by auto
    show "?ps ! j \<le> p"
    proof (cases "i = length es")
      case True
      then have "p = snd (last es) + 1000"
        using ne by (simp add: p_eq new_position_def)
      moreover have "?ps ! j \<le> ?ps ! (length es - 1)"
        using j ne by (intro mono) simp_all
      moreover have "?ps ! (length es - 1) = snd (last es)"
        using ne by (simp add: last_conv_nth)
      ultimately show ?thesis by simp
    next
      case False
      with le have lt: "i < length es" by simp
      then have "p = (snd (es ! (i - 1)) + snd (es ! i)) / 2"
        using ne by (simp add: p_eq new_position_def)
      moreover have "?ps ! j \<le> ?ps ! (i - 1)"
        using j lt by (intro mono) simp_all
      moreover have "?ps ! (i - 1) \<le> ?ps ! i"
        using lt by (intro mono) simp_all
      ultimately show ?thesis using lt ne by simp
    qed
  qed
  have above: "\<forall>j. i \<le> j \<and> j < length ?ps \<longrightarrow> p \<le> ?ps ! j"
  proof (intro allI impI)
    fix j assume j: "i \<le> j \<and> j < length ?ps"
    then have ne: "es \<noteq> []" by auto
    from j have lt: "i < length es" by simp
    show "p \<le> ?ps ! j"
    proof (cases "i = 0")
      case True
      have first: "?ps ! 0 \<le> ?ps ! j"
        using j by (intro mono) simp_all
      have hd: "snd (hd es) = ?ps ! 0"
        using ne by (simp add: hd_conv_nth)
      have "p = (if snd (hd es) > 0 then snd (hd es) / 2 else - 1000)"
        using ne True by (simp add: p_eq new_position_def hd_conv_nth)
      moreover have "- 1000 \<le> snd (hd es)" if "\<not> snd (hd es) > 0"
        using head ne True by (simp add: i_def)
      ultimately have "p \<le> snd (hd es)"
        by (auto simp: field_simps)
      with first hd show ?thesis by simp
    next
      case False
      then have "p = (snd (es ! (i - 1)) + snd (es ! i)) / 2"
        using ne lt by (simp add: p_eq new_position_def)
      moreover have "?ps ! (i - 1) \<le> ?ps ! i"
        using lt by (intro mono) simp_all
      moreover have "?ps ! i \<le> ?ps ! j"
        using j by (intro mono) simp_all
      ultimately show ?thesis using lt j by simp
    qed
  qed
  have "sorted (list_insert ?ps i p)"
    by (rule sorted_list_insert [OF poss below above])
  then have "sorted (map snd (insert_allocated es k))"
    by (simp add: insert_allocated_def map_list_insert i_def p_def)
  with k_sorted show ?thesis by simp
qed

theorem insertion_keeps_order_witness:
  "sorted (map fst [(KInt 1, 1000), (KInt 5, 2000 :: real)]) \<and>
   sorted (map snd [(KInt 1, 1000), (KInt 5, 2000 :: real)]) \<and>
   insert_allocated [(KInt 1, 1000), (KInt 5, 2000)] (KInt 3)
     = [(KInt 1, 1000), (KInt 3, 1500), (KInt 5, 2000)] \<and>
   sorted (map snd (insert_allocated [(KInt 1, 1000), (KInt 5, 2000)] (KInt 3)))"
proof -
  let ?es = "[(KInt 1, 1000), (KInt 5, 2000 :: real)]"
  have h1: "sorted (map fst ?es)" by (simp add: less_sort_key_def)
  have h2: "sorted (map snd ?es)" by simp
  have b: "bisect_left (map fst ?es) (KInt 3) = 1" by code_simp
  have h3: "?es \<noteq> [] \<and> bisect_left (map fst ?es) (KInt 3) = 0 \<longrightarrow> - 1000 \<le> snd (hd ?es)"
    by simp
  have v: "insert_allocated ?es (KInt 3) = [(KInt 1, 1000), (KInt 3, 1500), (KInt 5, 2000)]"
    using b by (simp add: insert_allocated_def list_insert_def allocate_def new_position_def)
  from insertion_keeps_order [OF h1 h2 h3] h1 h2 v show ?thesis by simp
qed

section \<open>Template expansion\<close>

text \<open>
  Claim C5 at the anchor 2025-01-01T00:00:00 (ordinal 739252) and a task definition
  with offset 0 and duration 48 hours.  The end instant falls on 2025-01-03; the end
  date of the expanded task is 23:59 of 2025-01-01, the start date.
\<close>

theorem template_end_on_start_date:
  "template_task \<lparr>ordinal = 739252, second_of_day = 0\<rparr> [] [] None
     \<lparr>def_title = ''Bake'', offset_hours = Some 0, duration_hours = Some 48, def_ref = None,
      def_blocked_by = None\<rparr>
   = \<lparr>title = Some ''Bake'', description = None, start_date = Some ''2025-01-01T00:00:00Z'',
      end_date = Some ''2025-01-01T23:59:00Z'', due_date = None, priority = None,
      labels = Some [], bucket = None, ref = None, blocked_by = None, blocks = None,
      subtask_of = None\<rparr> \<and>
   strftime_date (add_hours (add_hours \<lparr>ordinal = 739252, second_of_day = 0\<rparr> 0) 48) = ''2025-01-03''"
  by code_simp

text \<open>For every task definition both boundaries are taken on the date of the start
  instant.\<close>

lemma template_task_dates:
  "start_date (template_task a ls sfx b td)
     = Some (strftime_date (add_hours a (get_int (offset_hours td) 0)) @ ''T00:00:00Z'') \<and>
   end_date (template_task a ls sfx b td)
     = Some (strftime_date (add_hours a (get_int (offset_hours td) 0)) @ ''T23:59:00Z'')"
  by (simp add: template_task_def Let_def)

section \<open>Deep merge\<close>

inductive_cases repr_PDictE: "repr A h (PDict a) t"
inductive_cases repr_JDictE: "repr A h v (JDict kts)"

text \<open>A run that returns within a depth returns the same within any greater depth.\<close>

lemma fuel_step:
  "deep_merge_heap n h b u = Some r \<Longrightarrow> deep_merge_heap (Suc n) h b u = Some r"
  "merge_items n items res h = Some h' \<Longrightarrow> merge_items (Suc n) items res h = Some h'"
proof (induction n h b u and n items res h arbitrary: r and h' rule: deep_merge_heap_merge_items.induct)
  case (1 h base updates)
  then show ?case by simp
next
  case (2 depth h base updates)
  then show ?case by (auto split: option.splits)
next
  case (3 depth result h)
  then show ?case by simp
next
  case (4 depth key "value" rest result h)
  show ?case
  proof (cases "dict_pair (map_of (h ! result) key) value")
    case None
    with 4 show ?thesis by simp
  next
    case (Some xy)
    obtain x y where xy: "xy = (x, y)" by (cases xy)
    from "4.prems" Some xy obtain h1 r1 where
      inner: "deep_merge_heap depth h x y = Some (h1, r1)" and
      rest: "merge_items depth rest result (h1[result := dict_set (h1 ! result) key (PDict r1)]) = Some h'"
      by (auto split: option.splits)
    from "4.IH"(2) [OF Some xy [symmetric] inner]
    have "deep_merge_heap (Suc depth) h x y = Some (h1, r1)" .
    moreover from "4.IH"(3) [OF Some xy [symmetric] inner refl rest]
    have "merge_items (Suc depth) rest result (h1[result := dict_set (h1 ! result) key (PDict r1)]) = Some h'" .
    ultimately show ?thesis
      using Some xy by (simp del: deep_merge_heap.simps)
  qed
qed

lemma fuel_mono:
  assumes "n \<le> m"
  shows "deep_merge_heap n h b u = Some r \<Longrightarrow> deep_merge_heap m h b u = Some r"
    and "merge_items n items res h = Some h' \<Longrightarrow> merge_items m items res h = Some h'"
  using assms by (induction m) (auto simp: le_Suc_eq dest: fuel_step simp del: deep_merge_heap.simps merge_items.simps)

text \<open>A run changes no object that was there before: the result is a new object, the
  loop writes to the result only.\<close>

lemma heap_frame:
  "deep_merge_heap n h b u = Some (h', r) \<Longrightarrow>
     r = length h \<and> length h < length h' \<and> (\<forall>a<length h. h' ! a = h ! a)"
  "merge_items n items res h = Some h' \<Longrightarrow> res < length h \<Longrightarrow>
     length h \<le> length h' \<and> (\<forall>a<length h. a \<noteq> res \<longrightarrow> h' ! a = h ! a)"
proof (induction n h b u and n items res h arbitrary: h' r and h' rule: deep_merge_heap_merge_items.induct)
  case (1 h base updates)
  then show ?case by simp
next
  case (2 depth h base updates)
  from "2.prems" obtain h1 where m: "merge_items depth (h ! updates) (length h) (h @ [h ! base]) = Some h1"
    and eq: "h' = h1" "r = length h"
    by (auto split: option.splits)
  from "2.IH" [OF m] have "length (h @ [h ! base]) \<le> length h1"
    and "\<forall>a<length (h @ [h ! base]). a \<noteq> length h \<longrightarrow> h1 ! a = (h @ [h ! base]) ! a"
    by simp_all
  then show ?case using eq by (auto simp: nth_append)
next
  case (3 depth result h)
  then show ?case by simp
next
  case (4 depth key "value" rest result h)
  show ?case
  proof (cases "dict_pair (map_of (h ! result) key) value")
    case None
    with "4.prems" have "merge_items depth rest result (h[result := dict_set (h ! result) key value]) = Some h'"
      by simp
    from "4.IH"(1) [OF None this] "4.prems"(2) show ?thesis by simp
  next
    case (Some xy)
    obtain x y where xy: "xy = (x, y)" by (cases xy)
    from "4.prems" Some xy obtain h1 r1 where
      inner: "deep_merge_heap depth h x y = Some (h1, r1)" and
      rest: "merge_items depth rest result (h1[result := dict_set (h1 ! result) key (PDict r1)]) = Some h'"
      by (auto split: option.splits)
    from "4.IH"(2) [OF Some xy [symmetric] inner]
    have f1: "length h < length h1" "\<forall>a<length h. h1 ! a = h ! a" by simp_all
    with "4.prems"(2) have "result < length (h1[result := dict_set (h1 ! result) key (PDict r1)])"
      by simp
    from "4.IH"(3) [OF Some xy [symmetric] inner refl rest this]
    have f2: "length h1 \<le> length h'" "\<forall>a<length h1. a \<noteq> result \<longrightarrow> h' ! a = h1 ! a"
      by simp_all
    from f1 f2 show ?thesis by auto
  qed
qed

lemma repr_mono:
  assumes "repr A h v t" and "A \<subseteq> B" and "\<forall>a\<in>A. a < length h \<longrightarrow> a < length h' \<and> h' ! a = h ! a"
  shows "repr B h' v t"
  using assms(1)
proof (induction rule: repr.induct)
  case (6 a kts)
  from 6(1,2) assms(2,3) have a: "a \<in> B" "a < length h'" "h' ! a = h ! a" by auto
  from 6(3) have "list_all2 (\<lambda>kv kt. fst kv = fst kt \<and> repr B h' (snd kv) (snd kt)) (h ! a) kts"
    by (rule list_all2_mono) simp
  with a show ?case by (auto intro: repr.intros)
qed (auto intro: repr.intros)

lemma entries_rel_mono:
  assumes "entries_rel A h d t" and "A \<subseteq> B" and "\<forall>a\<in>A. a < length h \<longrightarrow> a < length h' \<and> h' ! a = h ! a"
  shows "entries_rel B h' d t"
  using assms(1) unfolding entries_rel_def
  by (rule list_all2_mono) (auto intro: repr_mono [OF _ assms(2,3)])

lemma entries_rel_map_of:
  "entries_rel A h d t \<Longrightarrow> rel_option (repr A h) (map_of d k) (map_of t k)"
  unfolding entries_rel_def
  by (induction d t rule: list_all2_induct) auto

lemma entries_rel_dict_set:
  "entries_rel A h d t \<Longrightarrow> repr A h v tv \<Longrightarrow> entries_rel A h (dict_set d k v) (dict_set t k tv)"
  unfolding entries_rel_def
  by (induction d t rule: list_all2_induct) auto

lemma repr_PDict_iff:
  "repr A h (PDict a) t \<longleftrightarrow> (\<exists>kts. t = JDict kts \<and> a \<in> A \<and> a < length h \<and> entries_rel A h (h ! a) kts)"
  by (auto simp: entries_rel_def elim: repr_PDictE intro: repr.intros)

lemma repr_JDict_iff:
  "repr A h v (JDict kts) \<longleftrightarrow> (\<exists>a. v = PDict a \<and> a \<in> A \<and> a < length h \<and> entries_rel A h (h ! a) kts)"
  by (auto simp: entries_rel_def elim: repr_JDictE intro: repr.intros)

text \<open>
  The loop on the heap computes the loop on values.  \<open>A\<close> are the addresses that the
  remaining items and the entries of the result refer to; the result itself is not
  among them, and what the nested calls allocate is added.
\<close>

lemma merge_items_refines:
  "res < length h \<Longrightarrow> res \<notin> A \<Longrightarrow> A \<subseteq> {..<length h} \<Longrightarrow>
   entries_rel A h items tus \<Longrightarrow> entries_rel A h (h ! res) tres \<Longrightarrow>
   \<exists>n h'. merge_items n items res h = Some h' \<and>
           entries_rel (A \<union> {length h..<length h'}) h' (h' ! res) (deep_merge tres tus)"
proof (induction tres tus arbitrary: h items A res rule: deep_merge.induct)
  case (1 result)
  then have "items = []" by (simp add: entries_rel_def)
  moreover have "A \<union> {length h..<length h} = A" by simp
  ultimately show ?case using 1 by (intro exI [of _ 0] exI [of _ h]) simp
next
  case (2 tres key tvalue rest)
  from "2.prems"(4) obtain v items' where items: "items = (key, v) # items'"
    and v: "repr A h v tvalue" and items': "entries_rel A h items' rest"
    by (auto simp: entries_rel_def list_all2_Cons2)
  note old = entries_rel_map_of [OF "2.prems"(5), of key]
  show ?case
  proof (cases "dict_pair (map_of (h ! res) key) v")
    case None
    have plain: "(case map_of tres key of
                    Some (JDict b) \<Rightarrow> (case tvalue of JDict u \<Rightarrow> JDict (deep_merge b u) | _ \<Rightarrow> tvalue)
                  | _ \<Rightarrow> tvalue) = tvalue"
    proof (cases "map_of tres key")
      case None
      then show ?thesis by simp
    next
      case (Some tv)
      show ?thesis
      proof (cases "\<exists>b u. tv = JDict b \<and> tvalue = JDict u")
        case True
        then obtain b u where bu: "tv = JDict b" "tvalue = JDict u" by blast
        from old Some bu obtain pv where "map_of (h ! res) key = Some pv" "repr A h pv (JDict b)"
          by (auto simp: option_rel_Some2)
        moreover from v bu obtain y where "v = PDict y" by (auto simp: repr_JDict_iff)
        ultimately have "dict_pair (map_of (h ! res) key) v \<noteq> None"
          by (auto simp: dict_pair_def repr_JDict_iff)
        with None show ?thesis by simp
      next
        case False
        with Some show ?thesis by (auto split: jval.splits)
      qed
    qed
    define h3 where "h3 = h[res := dict_set (h ! res) key v]"
    have agree: "\<forall>a\<in>A. a < length h \<longrightarrow> a < length h3 \<and> h3 ! a = h ! a"
    proof (intro ballI impI)
      fix a assume "a \<in> A" "a < length h"
      with "2.prems"(2) have "a \<noteq> res" by auto
      then show "a < length h3 \<and> h3 ! a = h ! a"
        using \<open>a < length h\<close> by (simp add: h3_def)
    qed
    have r3: "h3 ! res = dict_set (h ! res) key v"
      using "2.prems"(1) by (simp add: h3_def)
    have e1: "entries_rel A h3 items' rest"
      by (rule entries_rel_mono [OF items' subset_refl agree])
    have e2: "entries_rel A h3 (h3 ! res) (dict_set tres key tvalue)"
      unfolding r3
      by (rule entries_rel_dict_set [OF entries_rel_mono [OF "2.prems"(5) subset_refl agree]
            repr_mono [OF v subset_refl agree]])
    have "\<exists>n h'. merge_items n items' res h3 = Some h' \<and>
            entries_rel (A \<union> {length h3..<length h'}) h' (h' ! res)
              (deep_merge (dict_set tres key tvalue) rest)"
      using "2.IH"(2) [of res h3 A items'] "2.prems"(1,2,3) e1 e2
      by (simp add: plain h3_def)
    then obtain n h' where "merge_items n items' res h3 = Some h'"
      "entries_rel (A \<union> {length h3..<length h'}) h' (h' ! res) (deep_merge (dict_set tres key tvalue) rest)"
      by blast
    then show ?thesis
      using None plain by (intro exI [of _ n] exI [of _ h']) (simp add: items h3_def)
  next
    case (Some xy)
    obtain x y where xy: "xy = (x, y)" by (cases xy)
    from Some xy have px: "map_of (h ! res) key = Some (PDict x)" and vy: "v = PDict y"
      by (auto simp: dict_pair_def split: option.splits pyval.splits)
    from old px obtain tv where tv: "map_of tres key = Some tv" "repr A h (PDict x) tv"
      by (auto simp: option_rel_Some1)
    then obtain b where b: "tv = JDict b" "x \<in> A" "x < length h" "entries_rel A h (h ! x) b"
      by (auto simp: repr_PDict_iff)
    from v vy obtain u where u: "tvalue = JDict u" "y \<in> A" "y < length h" "entries_rel A h (h ! y) u"
      by (auto simp: repr_PDict_iff)
    have merged: "(case map_of tres key of
                    Some (JDict b) \<Rightarrow> (case tvalue of JDict u \<Rightarrow> JDict (deep_merge b u) | _ \<Rightarrow> tvalue)
                  | _ \<Rightarrow> tvalue) = JDict (deep_merge b u)"
      using tv b u by simp
    \<comment> \<open>the nested call\<close>
    define h1 where "h1 = h @ [h ! x]"
    have agree1: "\<forall>a\<in>A. a < length h \<longrightarrow> a < length h1 \<and> h1 ! a = h ! a"
      by (auto simp: h1_def nth_append)
    have "\<exists>n h'. merge_items n (h ! y) (length h) h1 = Some h' \<and>
            entries_rel (A \<union> {length h1..<length h'}) h' (h' ! length h) (deep_merge b u)"
    proof (rule "2.IH"(1) [OF tv(1) b(1) u(1)])
      show "length h < length h1" by (simp add: h1_def)
      show "length h \<notin> A" using "2.prems"(3) by auto
      show "A \<subseteq> {..<length h1}" using "2.prems"(3) by (auto simp: h1_def)
      show "entries_rel A h1 (h ! y) u"
        by (rule entries_rel_mono [OF u(4) subset_refl agree1])
      have "h1 ! length h = h ! x" by (simp add: h1_def)
      then show "entries_rel A h1 (h1 ! length h) b"
        using entries_rel_mono [OF b(4) subset_refl agree1] by simp
    qed
    then obtain n1 h2 where inner: "merge_items n1 (h ! y) (length h) h1 = Some h2"
      and e_in: "entries_rel (A \<union> {length h1..<length h2}) h2 (h2 ! length h) (deep_merge b u)"
      by blast
    have call: "deep_merge_heap (Suc n1) h x y = Some (h2, length h)"
      using inner by (simp add: h1_def)
    have f2: "length h1 \<le> length h2" "\<forall>a<length h1. a \<noteq> length h \<longrightarrow> h2 ! a = h1 ! a"
      using heap_frame(2) [OF inner] by (simp_all add: h1_def)
    have len12: "length h < length h2" using f2(1) by (simp add: h1_def)
    have old2: "\<forall>a<length h. h2 ! a = h ! a"
      using f2(2) by (auto simp: h1_def nth_append)
    \<comment> \<open>the assignment to the result and the rest of the loop\<close>
    define h3 where "h3 = h2[res := dict_set (h2 ! res) key (PDict (length h))]"
    define A' where "A' = A \<union> {length h..<length h2}"
    have len3: "length h3 = length h2" by (simp add: h3_def)
    have r3: "h3 ! res = dict_set (h ! res) key (PDict (length h))"
      using "2.prems"(1) len12 old2 by (simp add: h3_def)
    have other3: "\<forall>a<length h2. a \<noteq> res \<longrightarrow> h3 ! a = h2 ! a"
      by (simp add: h3_def)
    have agree3: "\<forall>a\<in>A. a < length h \<longrightarrow> a < length h3 \<and> h3 ! a = h ! a"
    proof (intro ballI impI)
      fix a assume a: "a \<in> A" "a < length h"
      with "2.prems"(2) have "a \<noteq> res" by auto
      moreover from a len12 have "a < length h2" by simp
      ultimately have "h3 ! a = h2 ! a" using other3 by simp
      with a old2 len12 len3 show "a < length h3 \<and> h3 ! a = h ! a" by simp
    qed
    have agree23: "\<forall>a\<in>A \<union> {length h1..<length h2}. a < length h2 \<longrightarrow> a < length h3 \<and> h3 ! a = h2 ! a"
    proof (intro ballI impI)
      fix a assume a: "a \<in> A \<union> {length h1..<length h2}" "a < length h2"
      have "a \<noteq> res"
      proof
        assume "a = res"
        with a(1) "2.prems"(1,2) show False by (auto simp: h1_def)
      qed
      with a(2) other3 len3 show "a < length h3 \<and> h3 ! a = h2 ! a" by simp
    qed
    have sub: "A \<subseteq> A'" "A \<union> {length h1..<length h2} \<subseteq> A'"
      by (auto simp: A'_def h1_def)
    have new: "repr A' h3 (PDict (length h)) (JDict (deep_merge b u))"
    proof -
      have "h3 ! length h = h2 ! length h"
        using other3 len12 "2.prems"(1) by auto
      moreover have "entries_rel A' h3 (h2 ! length h) (deep_merge b u)"
        by (rule entries_rel_mono [OF e_in sub(2) agree23])
      ultimately show ?thesis
        using len12 len3 by (simp add: repr_PDict_iff A'_def)
    qed
    have e1: "entries_rel A' h3 items' rest"
      by (rule entries_rel_mono [OF items' sub(1) agree3])
    have e2: "entries_rel A' h3 (h3 ! res) (dict_set tres key (JDict (deep_merge b u)))"
      unfolding r3
      by (rule entries_rel_dict_set [OF entries_rel_mono [OF "2.prems"(5) sub(1) agree3] new])
    have "\<exists>n h'. merge_items n items' res h3 = Some h' \<and>
            entries_rel (A' \<union> {length h3..<length h'}) h' (h' ! res)
              (deep_merge (dict_set tres key (JDict (deep_merge b u))) rest)"
    proof (rule "2.IH"(2) [unfolded merged])
      show "res < length h3" using "2.prems"(1) len12 len3 by simp
      show "res \<notin> A'" using "2.prems"(1,2) by (auto simp: A'_def)
      show "A' \<subseteq> {..<length h3}" using "2.prems"(3) len12 len3 by (auto simp: A'_def)
      show "entries_rel A' h3 items' rest" by (rule e1)
      show "entries_rel A' h3 (h3 ! res) (dict_set tres key (JDict (deep_merge b u)))" by (rule e2)
    qed
    then obtain n2 h' where rest: "merge_items n2 items' res h3 = Some h'"
      and e_out: "entries_rel (A' \<union> {length h3..<length h'}) h' (h' ! res)
              (deep_merge (dict_set tres key (JDict (deep_merge b u))) rest)"
      by blast
    have "res < length h3" using "2.prems"(1) len12 len3 by simp
    from heap_frame(2) [OF rest this] have len3': "length h3 \<le> length h'" by simp
    have sets: "A' \<union> {length h3..<length h'} = A \<union> {length h..<length h'}"
      using len12 len3 len3' by (auto simp: A'_def)
    define n where "n = max (Suc n1) n2"
    have c1: "deep_merge_heap n h x y = Some (h2, length h)"
      by (rule fuel_mono(1) [OF _ call]) (simp add: n_def)
    have c2: "merge_items n items' res h3 = Some h'"
      by (rule fuel_mono(2) [OF _ rest]) (simp add: n_def)
    have "merge_items n items res h = Some h'"
      using Some xy c1 c2 by (simp add: items h3_def del: deep_merge_heap.simps)
    moreover have "entries_rel (A \<union> {length h..<length h'}) h' (h' ! res) (deep_merge tres ((key, tvalue) # rest))"
      using e_out sets merged by simp
    ultimately show ?thesis by blast
  qed
qed

lemma map_of_dict_set: "map_of (dict_set d k v) = (map_of d)(k \<mapsto> v)"
  by (induction d) auto

lemma keys_dict_set: "fst ` set (dict_set d k v) = insert k (fst ` set d)"
proof (induction d)
  case Nil
  then show ?case by simp
next
  case (Cons kx d)
  obtain k' x where kx: "kx = (k', x)" by (cases kx)
  show ?case
  proof (cases "k' = k")
    case True
    then show ?thesis by (simp add: kx)
  next
    case False
    then show ?thesis using Cons.IH by (simp add: kx insert_commute)
  qed
qed

lemma deep_merge_keys:
  "fst ` set (deep_merge result updates) = fst ` set result \<union> fst ` set updates"
proof (induction updates arbitrary: result)
  case Nil
  then show ?case by simp
next
  case (Cons kv rest)
  obtain key "value" where kv: "kv = (key, value)" by (cases kv)
  show ?case
    by (simp add: kv Cons.IH keys_dict_set)
qed

lemma deep_merge_lookup:
  "distinct (map fst updates) \<Longrightarrow>
   map_of (deep_merge result updates) k =
     (case map_of updates k of
        None \<Rightarrow> map_of result k
      | Some v \<Rightarrow>
          Some (case (map_of result k, v) of
                  (Some (JDict bd), JDict ud) \<Rightarrow> JDict (deep_merge bd ud)
                | _ \<Rightarrow> v))"
proof (induction updates arbitrary: result)
  case Nil
  then show ?case by simp
next
  case (Cons kv rest)
  obtain key "value" where kv: "kv = (key, value)" by (cases kv)
  from Cons.prems kv have d: "distinct (map fst rest)" and fresh: "map_of rest key = None"
    by (auto simp: map_of_eq_None_iff)
  define X where "X = (case map_of result key of
             Some (JDict b) \<Rightarrow> (case value of JDict u \<Rightarrow> JDict (deep_merge b u) | _ \<Rightarrow> value)
           | _ \<Rightarrow> value)"
  have X: "X = (case (map_of result key, value) of
                  (Some (JDict bd), JDict ud) \<Rightarrow> JDict (deep_merge bd ud)
                | _ \<Rightarrow> value)"
    by (simp add: X_def split: option.splits jval.splits)
  have step: "deep_merge result (kv # rest) = deep_merge (dict_set result key X) rest"
    by (simp add: kv X_def)
  note ih = Cons.IH [OF d, of "dict_set result key X"]
  show ?case
  proof (cases "k = key")
    case True
    have "map_of (deep_merge result (kv # rest)) k = Some X"
      unfolding step ih using fresh True by (simp add: map_of_dict_set)
    moreover have "map_of (kv # rest) k = Some value"
      using True by (simp add: kv)
    ultimately show ?thesis
      using True X by simp
  next
    case False
    have "map_of (kv # rest) k = map_of rest k"
      using False by (simp add: kv)
    moreover have "map_of (dict_set result key X) k = map_of result k"
      using False by (simp add: map_of_dict_set)
    ultimately show ?thesis
      unfolding step ih by (simp split: option.splits)
  qed
qed

lemma deep_merge_heap_refines:
  assumes b: "repr {..<length h} h (PDict b) (JDict base)"
      and u: "repr {..<length h} h (PDict u) (JDict updates)"
  shows "\<exists>n h'. deep_merge_heap n h b u = Some (h', length h) \<and>
           repr {..<length h'} h' (PDict (length h)) (JDict (deep_merge base updates))"
proof -
  define A where "A = {..<length h}"
  define h1 where "h1 = h @ [h ! b]"
  from b have eb: "entries_rel A h (h ! b) base"
    by (simp add: repr_PDict_iff A_def)
  from u have eu: "entries_rel A h (h ! u) updates"
    by (simp add: repr_PDict_iff A_def)
  have agree: "\<forall>a\<in>A. a < length h \<longrightarrow> a < length h1 \<and> h1 ! a = h ! a"
    by (auto simp: h1_def nth_append)
  have "\<exists>n h'. merge_items n (h ! u) (length h) h1 = Some h' \<and>
          entries_rel (A \<union> {length h1..<length h'}) h' (h' ! length h) (deep_merge base updates)"
  proof (rule merge_items_refines)
    show "length h < length h1" by (simp add: h1_def)
    show "length h \<notin> A" by (simp add: A_def)
    show "A \<subseteq> {..<length h1}" by (auto simp: A_def h1_def)
    show "entries_rel A h1 (h ! u) updates"
      by (rule entries_rel_mono [OF eu subset_refl agree])
    have "h1 ! length h = h ! b" by (simp add: h1_def)
    then show "entries_rel A h1 (h1 ! length h) base"
      using entries_rel_mono [OF eb subset_refl agree] by simp
  qed
  then obtain n h' where m: "merge_items n (h ! u) (length h) h1 = Some h'"
    and e: "entries_rel (A \<union> {length h1..<length h'}) h' (h' ! length h) (deep_merge base updates)"
    by blast
  have len: "length h1 \<le> length h'"
    using heap_frame(2) [OF m] by (simp add: h1_def)
  have "entries_rel {..<length h'} h' (h' ! length h) (deep_merge base updates)"
    by (rule entries_rel_mono [OF e]) (use len in \<open>auto simp: A_def h1_def\<close>)
  then have "repr {..<length h'} h' (PDict (length h)) (JDict (deep_merge base updates))"
    using len by (simp add: repr_PDict_iff h1_def)
  moreover have "deep_merge_heap (Suc n) h b u = Some (h', length h)"
    using m by (simp add: h1_def)
  ultimately show ?thesis by blast
qed

text \<open>
  Claim C4.  For \<open>base\<close> and \<open>updates\<close> held at the addresses \<open>b\<close> and \<open>u\<close> of a heap:
  the merged dictionary has, for a key of \<open>updates\<close>, the recursive merge of the two
  values when both are dictionaries and the new value otherwise (a scalar or a list
  replaces, whatever the old value was); for a key of \<open>base\<close> that \<open>updates\<close> lacks, the
  value of \<open>base\<close>; its keys are those of both.  The run on the heap returns (at some
  depth), and every run that returns gives a new object that holds the merged
  dictionary, leaves every object of the old heap as it was, and so leaves \<open>base\<close>
  and \<open>updates\<close> with the values they had.
\<close>

theorem deep_merge_spec:
  assumes d: "distinct (map fst updates)"
      and b: "repr {..<length h} h (PDict b) (JDict base)"
      and u: "repr {..<length h} h (PDict u) (JDict updates)"
  shows "(\<forall>k. map_of (deep_merge base updates) k =
            (case map_of updates k of
               None \<Rightarrow> map_of base k
             | Some v \<Rightarrow>
                 Some (case (map_of base k, v) of
                         (Some (JDict bd), JDict ud) \<Rightarrow> JDict (deep_merge bd ud)
                       | _ \<Rightarrow> v))) \<and>
         fst ` set (deep_merge base updates) = fst ` set base \<union> fst ` set updates \<and>
         (\<exists>n. deep_merge_heap n h b u \<noteq> None) \<and>
         (\<forall>n h' r. deep_merge_heap n h b u = Some (h', r) \<longrightarrow>
            r = length h \<and>
            (\<forall>a<length h. h' ! a = h ! a) \<and>
            repr {..<length h'} h' (PDict b) (JDict base) \<and>
            repr {..<length h'} h' (PDict u) (JDict updates) \<and>
            repr {..<length h'} h' (PDict r) (JDict (deep_merge base updates)))"
proof -
  from deep_merge_heap_refines [OF b u] obtain n0 h0 where
    run0: "deep_merge_heap n0 h b u = Some (h0, length h)" and
    res0: "repr {..<length h0} h0 (PDict (length h)) (JDict (deep_merge base updates))"
    by blast
  have runs: "r = length h \<and> (\<forall>a<length h. h' ! a = h ! a) \<and>
            repr {..<length h'} h' (PDict b) (JDict base) \<and>
            repr {..<length h'} h' (PDict u) (JDict updates) \<and>
            repr {..<length h'} h' (PDict r) (JDict (deep_merge base updates))"
    if run: "deep_merge_heap n h b u = Some (h', r)" for n h' r
  proof -
    have "deep_merge_heap (max n n0) h b u = Some (h', r)"
      by (rule fuel_mono(1) [OF _ run]) simp
    moreover have "deep_merge_heap (max n n0) h b u = Some (h0, length h)"
      by (rule fuel_mono(1) [OF _ run0]) simp
    ultimately have same: "h' = h0" "r = length h" by simp_all
    from heap_frame(1) [OF run] have fr: "length h < length h'" "\<forall>a<length h. h' ! a = h ! a"
      by simp_all
    then have agree: "\<forall>a\<in>{..<length h}. a < length h \<longrightarrow> a < length h' \<and> h' ! a = h ! a"
      by auto
    have sub: "{..<length h} \<subseteq> {..<length h'}" using fr(1) by auto
    from repr_mono [OF b sub agree] repr_mono [OF u sub agree] res0 same fr show ?thesis
      by simp
  qed
  have "\<exists>n. deep_merge_heap n h b u \<noteq> None"
    using run0 by (intro exI [of _ n0]) simp
  with deep_merge_lookup [OF d, of base] deep_merge_keys [of base updates] runs show ?thesis
    by (intro conjI allI impI) simp_all
qed

theorem deep_merge_spec_witness:
  "distinct (map fst [(''a'', JDict [(''c'', JInt 2)])]) \<and>
   repr {..<4} [[(''a'', PDict 1)], [(''b'', PInt 1)], [(''a'', PDict 3)], [(''c'', PInt 2)]]
     (PDict 0) (JDict [(''a'', JDict [(''b'', JInt 1)])]) \<and>
   repr {..<4} [[(''a'', PDict 1)], [(''b'', PInt 1)], [(''a'', PDict 3)], [(''c'', PInt 2)]]
     (PDict 2) (JDict [(''a'', JDict [(''c'', JInt 2)])]) \<and>
   deep_merge [(''a'', JDict [(''b'', JInt 1)])] [(''a'', JDict [(''c'', JInt 2)])]
     = [(''a'', JDict [(''b'', JInt 1), (''c'', JInt 2)])] \<and>
   deep_merge_heap 2 [[(''a'', PDict 1)], [(''b'', PInt 1)], [(''a'', PDict 3)], [(''c'', PInt 2)]] 0 2
     = Some ([[(''a'', PDict 1)], [(''b'', PInt 1)], [(''a'', PDict 3)], [(''c'', PInt 2)],
              [(''a'', PDict 5)], [(''b'', PInt 1), (''c'', PInt 2)]], 4) \<and>
   repr {..<6} [[(''a'', PDict 1)], [(''b'', PInt 1)], [(''a'', PDict 3)], [(''c'', PInt 2)],
              [(''a'', PDict 5)], [(''b'', PInt 1), (''c'', PInt 2)]]
     (PDict 4) (JDict [(''a'', JDict [(''b'', JInt 1), (''c'', JInt 2)])])"
proof -
  let ?h = "[[(''a'', PDict 1)], [(''b'', PInt 1)], [(''a'', PDict 3)], [(''c'', PInt 2)]]"
  let ?h' = "[[(''a'', PDict 1)], [(''b'', PInt 1)], [(''a'', PDict 3)], [(''c'', PInt 2)],
              [(''a'', PDict 5)], [(''b'', PInt 1), (''c'', PInt 2)]]"
  have d: "distinct (map fst [(''a'', JDict [(''c'', JInt 2)])])"
    by simp
  have b: "repr {..<length ?h} ?h (PDict 0) (JDict [(''a'', JDict [(''b'', JInt 1)])])"
    by (simp add: repr_PDict_iff entries_rel_def repr.intros)
  have u: "repr {..<length ?h} ?h (PDict 2) (JDict [(''a'', JDict [(''c'', JInt 2)])])"
    by (simp add: repr_PDict_iff entries_rel_def repr.intros)
  have m: "deep_merge [(''a'', JDict [(''b'', JInt 1)])] [(''a'', JDict [(''c'', JInt 2)])]
     = [(''a'', JDict [(''b'', JInt 1), (''c'', JInt 2)])]"
    by simp
  have run: "deep_merge_heap 2 ?h 0 2 = Some (?h', 4)"
    by code_simp
  have len: "length ?h = 4" "length ?h' = 6"
    by simp_all
  note spec = deep_merge_spec [OF d b u]
  note all_runs = spec [THEN conjunct2, THEN conjunct2, THEN conjunct2, rule_format, OF run]
  from all_runs have "repr {..<length ?h'} ?h' (PDict 4) (JDict (deep_merge [(''a'', JDict [(''b'', JInt 1)])] [(''a'', JDict [(''c'', JInt 2)])]))"
    by (elim conjE)
  then have r: "repr {..<6} ?h' (PDict 4) (JDict [(''a'', JDict [(''b'', JInt 1), (''c'', JInt 2)])])"
    unfolding m len by (simp only:)
  from d b [unfolded len] u [unfolded len] m run r show ?thesis
    by (intro conjI)
qed

end
